theory Spec2Isabelle
  imports Main
begin

section \<open>Python string primitives used by app.py\<close>

text \<open>
  This theory embeds the scan engine of \<open>app.py\<close>: the path normalizer, the decision
  whether a response is a backup file, the prober of one target, the creation of a task
  from the submitted form and the orchestrator with its worker pool. Exceptions are
  values of a sum type, the shared task is passed explicitly, and the network, the file
  system and \<open>urljoin\<close> are parameters of a run. Time, the HTTP routes around
  \<open>start_scan\<close> and the handler that turns an unexpected exception into an answer
  with status 500 are left out.

  A Python \<open>str\<close> is modelled as a \<open>string\<close>, one \<open>char\<close> per code point; the model
  therefore covers the code points below 256. The functions below follow the behaviour
  of the CPython built-ins on that range.
\<close>

definition is_space :: "char \<Rightarrow> bool" where
  \<comment> \<open>\<open>str.isspace\<close> on one character: TAB..CR, FS..US, SPACE, NEL, NBSP.\<close>
  "is_space c =
     (let n = (of_char c :: nat)
      in (9 \<le> n \<and> n \<le> 13) \<or> (28 \<le> n \<and> n \<le> 31) \<or> n = 32 \<or> n = 133 \<or> n = 160)"

definition rstrip_chars :: "(char \<Rightarrow> bool) \<Rightarrow> string \<Rightarrow> string" where
  "rstrip_chars P s = rev (dropWhile P (rev s))"

definition strip :: "string \<Rightarrow> string" where
  \<comment> \<open>\<open>s.strip()\<close>\<close>
  "strip s = rstrip_chars is_space (dropWhile is_space s)"

definition startswith :: "string \<Rightarrow> string \<Rightarrow> bool" where
  \<comment> \<open>\<open>s.startswith(p)\<close>\<close>
  "startswith s p = (take (length p) s = p)"

definition endswith :: "string \<Rightarrow> string \<Rightarrow> bool" where
  \<comment> \<open>\<open>s.endswith(p)\<close>\<close>
  "endswith s p = (length p \<le> length s \<and> drop (length s - length p) s = p)"

section \<open>Path Normalizer\<close>

text \<open>
  \<^verbatim>\<open>
  def normalize_base_url(url: str) -> str:
      url = url.strip()
      if not url:
          return ""
      if not url.startswith("http://") and not url.startswith("https://"):
          url = "http://" + url
      if not url.endswith("/"):
          url += "/"
      return url
  \<close>
\<close>

definition normalize_base_url :: "string \<Rightarrow> string" where
  "normalize_base_url raw =
     (let url = strip raw in
      if url = [] then []
      else
        let url = (if \<not> startswith url ''http://'' \<and> \<not> startswith url ''https://''
                   then ''http://'' @ url else url);
            url = (if \<not> endswith url ''/'' then url @ ''/'' else url)
        in url)"

section \<open>Further string primitives\<close>

definition lower_char :: "char \<Rightarrow> char" where
  \<comment> \<open>\<open>str.lower\<close> on one character: A..Z and the upper-case letters of Latin-1.\<close>
  "lower_char c =
     (let n = (of_char c :: nat)
      in if (65 \<le> n \<and> n \<le> 90) \<or> (192 \<le> n \<and> n \<le> 222 \<and> n \<noteq> 215)
         then char_of (n + 32) else c)"

definition lower :: "string \<Rightarrow> string" where
  \<comment> \<open>\<open>s.lower()\<close>\<close>
  "lower s = map lower_char s"

fun str_in :: "string \<Rightarrow> string \<Rightarrow> bool" where
  \<comment> \<open>\<open>sub in s\<close>\<close>
  "str_in sub [] = (sub = [])"
| "str_in sub (c # cs) = (startswith (c # cs) sub \<or> str_in sub cs)"

fun find_after :: "string \<Rightarrow> string \<Rightarrow> string option" where
  \<comment> \<open>the text after the first occurrence of \<open>sep\<close>, if there is one\<close>
  "find_after sep [] = (if sep = [] then Some [] else None)"
| "find_after sep (c # cs) =
     (if startswith (c # cs) sep then Some (drop (length sep) (c # cs))
      else find_after sep cs)"

definition split1_last :: "string \<Rightarrow> string \<Rightarrow> string" where
  \<comment> \<open>\<open>s.split(sep, 1)[-1]\<close> for a non-empty \<open>sep\<close>\<close>
  "split1_last sep s = (case find_after sep s of None \<Rightarrow> s | Some r \<Rightarrow> r)"

definition replace_char :: "char \<Rightarrow> char \<Rightarrow> string \<Rightarrow> string" where
  \<comment> \<open>\<open>s.replace(a, b)\<close> for one-character \<open>a\<close> and \<open>b\<close>\<close>
  "replace_char a b s = map (\<lambda>c. if c = a then b else c) s"

datatype exn = ValueError | IndexError | OtherException

definition is_digit :: "char \<Rightarrow> bool" where
  "is_digit c = (let n = (of_char c :: nat) in 48 \<le> n \<and> n \<le> 57)"

definition digit_val :: "char \<Rightarrow> nat" where
  "digit_val c = of_char c - 48"

fun int_digits :: "bool \<Rightarrow> string \<Rightarrow> nat \<Rightarrow> nat option" where
  \<comment> \<open>decimal digits, single underscores allowed between two digits;
      the flag says that the previous character was a digit\<close>
  "int_digits prev [] acc = (if prev then Some acc else None)"
| "int_digits prev (c # cs) acc =
     (if is_digit c then int_digits True cs (10 * acc + digit_val c)
      else if c = CHR ''_'' \<and> prev then int_digits False cs acc
      else None)"

definition py_int :: "string \<Rightarrow> exn + int" where
  \<comment> \<open>\<open>int(s)\<close> for a \<open>str\<close>: surrounding whitespace, an optional sign, decimal digits;
      anything else raises \<open>ValueError\<close>\<close>
  "py_int s =
     (case strip s of
        [] \<Rightarrow> Inl ValueError
      | c # cs \<Rightarrow>
          if c = CHR ''-'' then
            (case int_digits False cs 0 of None \<Rightarrow> Inl ValueError | Some n \<Rightarrow> Inr (- int n))
          else if c = CHR ''+'' then
            (case int_digits False cs 0 of None \<Rightarrow> Inl ValueError | Some n \<Rightarrow> Inr (int n))
          else
            (case int_digits False (c # cs) 0 of None \<Rightarrow> Inl ValueError | Some n \<Rightarrow> Inr (int n)))"

section \<open>Backup Classifier\<close>

definition BACKUP_SUFFIXES :: "string list" where
  "BACKUP_SUFFIXES =
     [''.bak'', ''.zip'', ''.rar'', ''.7z'', ''.tar'', ''.tar.gz'', ''.tgz'',
      ''.sql'', ''.db'', ''.old'', ''.backup'']"

definition looks_like_backup :: "string \<Rightarrow> bool" where
  \<comment> \<open>\<open>lower = url.lower(); return any(lower.endswith(s) for s in BACKUP_SUFFIXES)\<close>\<close>
  "looks_like_backup url = (let l = lower url in list_ex (\<lambda>s. endswith l s) BACKUP_SUFFIXES)"

text \<open>
  What one HTTP response gives the prober: the status code, the two headers it reads
  (\<open>None\<close> when the header is absent), the final URL after redirects, and whether
  streaming the body to disk (\<open>save_response_content\<close>) raises.
\<close>

record response =
  status_code :: int
  content_type_header :: "string option"
  content_length_header :: "string option"
  resp_url :: string
  save_raises :: bool

definition content_type_of :: "response \<Rightarrow> string" where
  \<comment> \<open>\<open>(resp.headers.get("Content-Type") or "").lower()\<close>\<close>
  "content_type_of r = lower (case content_type_header r of None \<Rightarrow> [] | Some v \<Rightarrow> v)"

definition content_length_of :: "response \<Rightarrow> exn + int" where
  \<comment> \<open>\<open>int(resp.headers.get("Content-Length") or 0)\<close>: an absent or empty header
      gives \<open>int(0)\<close>, any other value goes through \<open>int\<close> of a string\<close>
  "content_length_of r =
     (case content_length_header r of
        None \<Rightarrow> Inr 0
      | Some v \<Rightarrow> if v = [] then Inr 0 else py_int v)"

datatype verdict = Match | SkipHtml | Invalid

definition classify :: "int \<Rightarrow> string \<Rightarrow> int \<Rightarrow> string \<Rightarrow> verdict" where
  \<comment> \<open>the decision of lines 127 to 146 of \<open>scan_single_target\<close> on
      \<open>code\<close>, \<open>content_type\<close>, \<open>content_length\<close> and \<open>resp.url\<close>\<close>
  "classify code content_type content_length url =
     (if (code = 200 \<or> code = 206) \<and> looks_like_backup url then
        (if str_in ''text/html'' content_type \<and> content_length < 2 * 1024 * 1024
         then SkipHtml else Match)
      else Invalid)"

definition classify_response :: "response \<Rightarrow> exn + verdict" where
  \<comment> \<open>lines 122 to 146: read the response, then classify; \<open>int\<close> may raise first\<close>
  "classify_response r =
     (case content_length_of r of
        Inl e \<Rightarrow> Inl e
      | Inr n \<Rightarrow> Inr (classify (status_code r) (content_type_of r) n (resp_url r)))"

section \<open>Task model and task creation\<close>

definition is_linebreak :: "char \<Rightarrow> bool" where
  \<comment> \<open>the line boundaries of \<open>str.splitlines\<close>: LF, VT, FF, CR, FS, GS, RS, NEL\<close>
  "is_linebreak c =
     (let n = (of_char c :: nat)
      in (10 \<le> n \<and> n \<le> 13) \<or> (28 \<le> n \<and> n \<le> 30) \<or> n = 133)"

fun splitlines_from :: "bool \<Rightarrow> string \<Rightarrow> string \<Rightarrow> string list" where
  \<comment> \<open>the flag says that the previous character was CR, so that CR LF is one boundary;
      the second argument is the current line, reversed\<close>
  "splitlines_from prev_cr cur [] = (if cur = [] then [] else [rev cur])"
| "splitlines_from prev_cr cur (c # cs) =
     (if c = CHR 0x0A \<and> prev_cr then splitlines_from False cur cs
      else if is_linebreak c then rev cur # splitlines_from (c = CHR 0x0D) [] cs
      else splitlines_from False (c # cur) cs)"

definition splitlines :: "string \<Rightarrow> string list" where
  \<comment> \<open>\<open>s.splitlines()\<close>\<close>
  "splitlines s = splitlines_from False [] s"

definition dict_fromkeys :: "'a list \<Rightarrow> 'a list" where
  \<comment> \<open>\<open>list(dict.fromkeys(xs))\<close>: the keys in insertion order\<close>
  "dict_fromkeys xs = fold (\<lambda>x keys. if x \<in> set keys then keys else keys @ [x]) xs []"

definition DEFAULT_PATHS :: "string list" where
  "DEFAULT_PATHS =
     [''index.php.bak'', ''index.jsp.bak'', ''config.php.bak'', ''wwwroot.zip'',
      ''website.zip'', ''backup.zip'', ''site_backup.zip'', ''db.sql'', ''backup.sql'']"

datatype target_state = Pending | Scanning | Done

record target_status =
  name :: string
  status :: target_state
  found :: nat

text \<open>
  A log line is kept as the kind of message together with the values formatted into it.
\<close>

datatype log_entry =
    LogScanStart string
  | LogTesting string
  | LogRequestError
  | LogHtmlSkip string
  | LogFound string
  | LogSaveTo string
  | LogSaveFailed
  | LogInvalid int string
  | LogTargetDone string nat nat
  | LogTaskStart nat nat int
  | LogDownloadDir string
  | LogThreadException exn
  | LogTraceback
  | LogAllDone

record task =
  task_id :: string
  logs :: "log_entry list"
  targets :: "target_status list"
  total_targets :: nat
  finished_targets :: nat
  paths :: "string list"
  max_workers :: int
  done_flag :: bool

text \<open>
  The fields of the POST request read by \<open>start_scan\<close>. An uploaded file is absent
  (or has no file name), fails to be read, or yields its decoded text.
\<close>

datatype upload = NoFile | Unreadable | FileText string

record form =
  targets_text :: string
  targets_file :: upload
  dict_text :: string
  dict_file :: upload
  threads :: "string option"

definition target_lines :: "string \<Rightarrow> string list" where
  \<comment> \<open>\<open>for line in text.splitlines(): line = line.strip(); if line: targets.append(line)\<close>\<close>
  "target_lines text = filter (\<lambda>l. l \<noteq> []) (map strip (splitlines text))"

definition path_lines :: "string \<Rightarrow> string list" where
  \<comment> \<open>the same loop with \<open>line.strip().lstrip("/\\")\<close>\<close>
  "path_lines text =
     filter (\<lambda>l. l \<noteq> [])
       (map (\<lambda>l. dropWhile (\<lambda>c. c = CHR ''/'' \<or> c = CHR 0x5C) (strip l)) (splitlines text))"

definition requested_workers :: "string option \<Rightarrow> int" where
  \<comment> \<open>step 4 of \<open>start_scan\<close>; \<open>None\<close> is a form without the field\<close>
  "requested_workers field =
     (let threads_raw = (case field of None \<Rightarrow> ''5'' | Some v \<Rightarrow> v);
          max_workers =
            (case py_int (strip (if threads_raw = [] then ''5'' else threads_raw)) of
               Inl e \<Rightarrow> 5
             | Inr n \<Rightarrow> n);
          max_workers = (if max_workers \<le> 0 then 1 else max_workers);
          max_workers = (if max_workers > 50 then 50 else max_workers)
      in max_workers)"

definition collected_targets :: "form \<Rightarrow> string list" where
  \<comment> \<open>steps 1 and 2 of \<open>start_scan\<close>: the lines of the text box, then those of the file\<close>
  "collected_targets f =
     target_lines (strip (targets_text f))
       @ (case targets_file f of FileText content \<Rightarrow> target_lines content | _ \<Rightarrow> [])"

definition collected_paths :: "form \<Rightarrow> string list" where
  \<comment> \<open>steps 3.1 and 3.2 of \<open>start_scan\<close>\<close>
  "collected_paths f =
     path_lines (strip (dict_text f))
       @ (case dict_file f of FileText content \<Rightarrow> path_lines content | _ \<Rightarrow> [])"

datatype start_result = BadRequest | Created task

definition start_scan :: "string \<Rightarrow> form \<Rightarrow> start_result" where
  \<comment> \<open>the first argument is the fresh \<open>uuid4\<close>; \<open>BadRequest\<close> is an answer with status 400\<close>
  "start_scan uuid f =
     (if targets_file f = Unreadable then BadRequest
      else
        let targets_list = dict_fromkeys (collected_targets f) in
        if targets_list = [] then BadRequest
        else if dict_file f = Unreadable then BadRequest
        else
          let paths_list = (if collected_paths f = [] then DEFAULT_PATHS else collected_paths f)
          in Created
               \<lparr>task_id = uuid,
                logs = [],
                targets = map (\<lambda>t. \<lparr>name = t, status = Pending, found = 0\<rparr>) targets_list,
                total_targets = length targets_list,
                finished_targets = 0,
                paths = paths_list,
                max_workers = requested_workers (threads f),
                done_flag = False\<rparr>)"

section \<open>Target Prober\<close>

text \<open>
  \<open>urlparse(base_url).netloc\<close> for a URL that starts with \<open>http://\<close> or \<open>https://\<close>, as
  every non-empty result of \<open>normalize_base_url\<close> does: TAB, LF and CR are removed, the
  network location runs from behind the two slashes to the first of \<open>/\<close>, \<open>?\<close>, \<open>#\<close>, and
  an opening bracket without a closing one (or the reverse) raises \<open>ValueError\<close>.
  Later checks of newer library versions on the text between brackets are not modelled.
\<close>

definition urlparse_netloc :: "string \<Rightarrow> exn + string" where
  "urlparse_netloc url =
     (let u = filter (\<lambda>c. c \<noteq> CHR 0x09 \<and> c \<noteq> CHR 0x0A \<and> c \<noteq> CHR 0x0D) url;
          rest = (if startswith u ''http://'' then drop 7 u
                  else if startswith u ''https://'' then drop 8 u else []);
          netloc = takeWhile (\<lambda>c. c \<noteq> CHR ''/'' \<and> c \<noteq> CHR ''?'' \<and> c \<noteq> CHR ''#'') rest
      in if (CHR ''['' \<in> set netloc \<and> CHR '']'' \<notin> set netloc)
            \<or> (CHR '']'' \<in> set netloc \<and> CHR ''['' \<notin> set netloc)
         then Inl ValueError else Inr netloc)"

definition os_path_join :: "string \<Rightarrow> string \<Rightarrow> string" where
  \<comment> \<open>\<open>os.path.join(a, b)\<close> of \<open>posixpath\<close>\<close>
  "os_path_join a b =
     (if startswith b ''/'' then b
      else if a = [] \<or> endswith a ''/'' then a @ b
      else a @ ''/'' @ b)"

definition dir_prefix :: "string \<Rightarrow> string" where
  \<comment> \<open>a directory name as \<open>os.path.join\<close> puts it before a relative name\<close>
  "dir_prefix d = (if d = [] \<or> endswith d ''/'' then d else d @ ''/'')"

definition host_tag_of :: "string \<Rightarrow> exn + string" where
  \<comment> \<open>\<open>parsed = urlparse(base_url); host_tag = parsed.netloc.replace(":", "_")\<close>\<close>
  "host_tag_of base_url =
     (case urlparse_netloc base_url of
        Inl e \<Rightarrow> Inl e
      | Inr netloc \<Rightarrow> Inr (replace_char (CHR '':'') (CHR ''_'') netloc))"

definition safe_name_of :: "string \<Rightarrow> string" where
  \<comment> \<open>\<open>safe_name = resp.url.split("://", 1)[-1].replace("/", "_")\<close>\<close>
  "safe_name_of url = replace_char (CHR ''/'') (CHR ''_'') (split1_last ''://'' url)"

definition save_path_of :: "string \<Rightarrow> string \<Rightarrow> string \<Rightarrow> string" where
  \<comment> \<open>\<open>save_dir = os.path.join(output_dir, host_tag);
      save_path = os.path.join(save_dir, safe_name)\<close>\<close>
  "save_path_of output_dir host_tag url =
     os_path_join (os_path_join output_dir host_tag) (safe_name_of url)"

definition save_path_for :: "string \<Rightarrow> string \<Rightarrow> string \<Rightarrow> exn + string" where
  \<comment> \<open>the file that the prober of \<open>target\<close> writes for a matching response whose final
      URL is \<open>url\<close>\<close>
  "save_path_for output_dir target url =
     (case host_tag_of (normalize_base_url target) of
        Inl e \<Rightarrow> Inl e
      | Inr host_tag \<Rightarrow> Inr (save_path_of output_dir host_tag url))"

text \<open>
  What lies outside the program: the directory of the downloads, the library function
  \<open>urljoin\<close> (which may raise), and what \<open>session.get\<close> does for the request number
  \<open>k\<close> of the prober of target \<open>i\<close>. A request ends in a \<open>requests.RequestException\<close>,
  in another exception, or in a response.
\<close>

datatype fetch_result = RequestException | Raises exn | Response response

record world =
  DOWNLOAD_DIR :: string
  urljoin :: "string \<Rightarrow> string \<Rightarrow> exn + string"
  session_get :: "nat \<Rightarrow> nat \<Rightarrow> string \<Rightarrow> fetch_result"

text \<open>
  A prober touches the shared task only inside \<open>TASKS_LOCK\<close>. Its run is therefore a
  sequence of atomic steps on the task; the values read under the lock together with the
  increment of \<open>finished_targets\<close> are kept per thread for the log line that follows.
\<close>

datatype action =
    Log log_entry
  | SetStatus nat target_state
  | SetFound nat nat
  | IncFinished
  | LogTargetDoneStep string

datatype outcome = Returned | Raised exn

definition log_line :: "task \<Rightarrow> log_entry \<Rightarrow> task" where
  "log_line t msg = t\<lparr>logs := logs t @ [msg]\<rparr>"

fun exec_action :: "action \<Rightarrow> task \<times> nat \<times> nat \<Rightarrow> task \<times> nat \<times> nat" where
  "exec_action (Log msg) (t, loc) = (log_line t msg, loc)"
| "exec_action (SetStatus i st) (t, loc) =
     (t\<lparr>targets := (targets t)[i := (targets t ! i)\<lparr>status := st\<rparr>]\<rparr>, loc)"
| "exec_action (SetFound i n) (t, loc) =
     (t\<lparr>targets := (targets t)[i := (targets t ! i)\<lparr>found := n\<rparr>]\<rparr>, loc)"
| "exec_action IncFinished (t, loc) =
     (let t' = t\<lparr>finished_targets := finished_targets t + 1\<rparr>
      in (t', finished_targets t', total_targets t'))"
| "exec_action (LogTargetDoneStep base_url) (t, loc) =
     (log_line t (LogTargetDone base_url (fst loc) (snd loc)), loc)"

definition run_steps :: "action list \<Rightarrow> task \<times> nat \<times> nat \<Rightarrow> task \<times> nat \<times> nat" where
  "run_steps steps st = fold exec_action steps st"

definition then_steps :: "action list \<Rightarrow> action list \<times> outcome \<Rightarrow> action list \<times> outcome" where
  "then_steps steps r = (steps @ fst r, snd r)"

text \<open>
  The loop over the candidate paths with what follows it. \<open>k\<close> counts the requests,
  \<open>found_count\<close> is the local counter of the source.
\<close>

fun probe_paths ::
  "world \<Rightarrow> nat \<Rightarrow> string \<Rightarrow> string \<Rightarrow> string \<Rightarrow> nat \<Rightarrow> nat \<Rightarrow> string list
     \<Rightarrow> action list \<times> outcome" where
  "probe_paths w i base_url host_tag output_dir k found_count [] =
     ([SetStatus i Done, IncFinished, LogTargetDoneStep base_url], Returned)"
| "probe_paths w i base_url host_tag output_dir k found_count (path # rest) =
     (case urljoin w base_url path of
        Inl e \<Rightarrow> ([], Raised e)
      | Inr full_url \<Rightarrow>
          (case session_get w i k full_url of
             RequestException \<Rightarrow>
               then_steps [Log (LogTesting full_url), Log LogRequestError]
                 (probe_paths w i base_url host_tag output_dir (k + 1) found_count rest)
           | Raises e \<Rightarrow> ([Log (LogTesting full_url)], Raised e)
           | Response resp \<Rightarrow>
               (case content_length_of resp of
                  Inl e \<Rightarrow> ([Log (LogTesting full_url)], Raised e)
                | Inr content_length \<Rightarrow>
                    (case classify (status_code resp) (content_type_of resp) content_length
                            (resp_url resp) of
                       SkipHtml \<Rightarrow>
                         then_steps [Log (LogTesting full_url), Log (LogHtmlSkip (resp_url resp))]
                           (probe_paths w i base_url host_tag output_dir (k + 1) found_count rest)
                     | Match \<Rightarrow>
                         (let save_path = save_path_of output_dir host_tag (resp_url resp) in
                          if save_raises resp then
                            then_steps
                              [Log (LogTesting full_url), Log (LogFound (resp_url resp)),
                               Log (LogSaveTo save_path), Log LogSaveFailed]
                              (probe_paths w i base_url host_tag output_dir (k + 1) found_count rest)
                          else
                            then_steps
                              [Log (LogTesting full_url), Log (LogFound (resp_url resp)),
                               Log (LogSaveTo save_path), SetFound i (found_count + 1)]
                              (probe_paths w i base_url host_tag output_dir (k + 1)
                                 (found_count + 1) rest))
                     | Invalid \<Rightarrow>
                         then_steps
                           [Log (LogTesting full_url),
                            Log (LogInvalid (status_code resp) (resp_url resp))]
                           (probe_paths w i base_url host_tag output_dir (k + 1) found_count rest)))))"

definition scan_single_target_steps ::
  "world \<Rightarrow> nat \<Rightarrow> string \<Rightarrow> string \<Rightarrow> string list \<Rightarrow> task \<Rightarrow> action list \<times> outcome" where
  \<comment> \<open>the steps of \<open>scan_single_target\<close> and how it ends; updating a target status at an
      index outside the list raises \<open>IndexError\<close>\<close>
  "scan_single_target_steps w target_index target output_dir ps t =
     (let base_url = normalize_base_url target in
      if base_url = [] then ([], Returned)
      else if \<not> target_index < length (targets t) then ([], Raised IndexError)
      else
        then_steps [SetStatus target_index Scanning, Log (LogScanStart base_url)]
          (case host_tag_of base_url of
             Inl e \<Rightarrow> ([], Raised e)
           | Inr host_tag \<Rightarrow> probe_paths w target_index base_url host_tag output_dir 0 0 ps))"

definition scan_single_target ::
  "world \<Rightarrow> nat \<Rightarrow> string \<Rightarrow> string \<Rightarrow> string list \<Rightarrow> task \<Rightarrow> task \<times> outcome" where
  \<comment> \<open>one prober run alone\<close>
  "scan_single_target w target_index target output_dir ps t =
     (let r = scan_single_target_steps w target_index target output_dir ps t
      in (fst (run_steps (fst r) (t, 0, 0)), snd r))"

section \<open>Scan Orchestrator\<close>

text \<open>
  The worker pool. Each thread is the list of the steps it still has to take, with its
  local values. A schedule names the thread that takes the next step; when the schedule
  is used up, the threads that are left run to their end one after the other, since
  leaving the \<open>with\<close> block waits for all of them. The pool size and the order in which
  the orchestrator waits for the futures only exclude some schedules, so every
  execution of the program is the run of some schedule.
\<close>

type_synonym thread = "action list \<times> nat \<times> nat"

fun run_pool :: "nat list \<Rightarrow> thread list \<Rightarrow> task \<Rightarrow> task" where
  "run_pool [] ths t = fold (\<lambda>th t. fst (run_steps (fst th) (t, snd th))) ths t"
| "run_pool (i # sched) ths t =
     (if i < length ths then
        (case ths ! i of
           ([], loc) \<Rightarrow> run_pool sched ths t
         | (a # steps, loc) \<Rightarrow>
             (let r = exec_action a (t, loc)
              in run_pool sched (ths[i := (steps, snd r)]) (fst r)))
      else run_pool sched ths t)"

definition enumerate0 :: "'a list \<Rightarrow> (nat \<times> 'a) list" where
  \<comment> \<open>\<open>enumerate(xs)\<close>\<close>
  "enumerate0 xs = zip [0 ..< length xs] xs"

definition exception_steps :: "outcome \<Rightarrow> action list" where
  \<comment> \<open>what waiting for one future logs\<close>
  "exception_steps r =
     (case r of Returned \<Rightarrow> [] | Raised e \<Rightarrow> [Log (LogThreadException e), Log LogTraceback])"

definition scan_task :: "world \<Rightarrow> nat list \<Rightarrow> task \<Rightarrow> task" where
  \<comment> \<open>the body of \<open>scan_worker\<close> once the task is found\<close>
  "scan_task w sched t =
     (let names = map name (targets t);
          ps = paths t;
          workers = min (int (length names)) (max_workers t);
          workers = (if workers < 1 then 1 else workers);
          t1 = log_line t (LogTaskStart (length names) (length ps) workers);
          t2 = log_line t1 (LogDownloadDir (DOWNLOAD_DIR w));
          runs = map (\<lambda>(idx, target). scan_single_target_steps w idx target (DOWNLOAD_DIR w) ps t)
                   (enumerate0 names);
          probers = map (\<lambda>r. (fst r, 0, 0)) runs;
          waiter = (concat (map (\<lambda>r. exception_steps (snd r)) runs), 0, 0);
          t3 = run_pool sched (probers @ [waiter]) t2;
          t4 = log_line t3 LogAllDone
      in t4\<lparr>done_flag := True\<rparr>)"

definition scan_worker ::
  "world \<Rightarrow> nat list \<Rightarrow> (string \<rightharpoonup> task) \<Rightarrow> string \<Rightarrow> (string \<rightharpoonup> task)" where
  "scan_worker w sched TASKS tid =
     (case TASKS tid of
        None \<Rightarrow> TASKS
      | Some t \<Rightarrow> TASKS(tid \<mapsto> scan_task w sched t))"

section \<open>Observations on a run\<close>

fun tested_url :: "action \<Rightarrow> string list" where
  "tested_url (Log (LogTesting u)) = [u]"
| "tested_url _ = []"

definition tested_urls :: "action list \<Rightarrow> string list" where
  \<comment> \<open>the URLs of the requests announced in the log, in order\<close>
  "tested_urls steps = concat (map tested_url steps)"

definition increments :: "action list \<Rightarrow> nat" where
  \<comment> \<open>how often the steps increment \<open>finished_targets\<close>\<close>
  "increments steps = length (filter (\<lambda>a. a = IncFinished) steps)"

definition pool_increments :: "thread list \<Rightarrow> nat" where
  \<comment> \<open>the increments that the threads of a pool still have to make\<close>
  "pool_increments ths = sum_list (map (\<lambda>th. increments (fst th)) ths)"

definition prober_completes :: "world \<Rightarrow> task \<Rightarrow> nat \<times> string \<Rightarrow> bool" where
  \<comment> \<open>the prober submitted for this index and target runs to the last line of
      \<open>scan_single_target\<close>: it neither returns early nor raises\<close>
  "prober_completes w t p =
     (normalize_base_url (snd p) \<noteq> []
      \<and> snd (scan_single_target_steps w (fst p) (snd p) (DOWNLOAD_DIR w) (paths t) t) = Returned)"

section \<open>Example inputs\<close>

definition plain_join :: "string \<Rightarrow> string \<Rightarrow> exn + string" where
  \<comment> \<open>\<open>urljoin\<close> on a base URL that ends in \<open>/\<close> and a plain relative path\<close>
  "plain_join base_url path = Inr (base_url @ path)"

definition file_world :: world where
  \<comment> \<open>every request is answered with a small binary file at the requested URL\<close>
  "file_world =
     \<lparr>DOWNLOAD_DIR = ''/srv/downloads'', urljoin = plain_join,
      session_get = (\<lambda>i k u. Response
        \<lparr>status_code = 200, content_type_header = Some ''application/octet-stream'',
         content_length_header = Some ''100'', resp_url = u, save_raises = False\<rparr>)\<rparr>"

definition badlen_world :: world where
  \<comment> \<open>every request is answered with an HTML page whose Content-Length is not a number\<close>
  "badlen_world =
     \<lparr>DOWNLOAD_DIR = ''/srv/downloads'', urljoin = plain_join,
      session_get = (\<lambda>i k u. Response
        \<lparr>status_code = 200, content_type_header = Some ''text/html'',
         content_length_header = Some ''abc'', resp_url = u, save_raises = False\<rparr>)\<rparr>"

definition duplicate_form :: form where
  "duplicate_form =
     \<lparr>targets_text = ''a.example\<newline>a.example'', targets_file = NoFile,
      dict_text = ''db.sql\<newline>db.sql'', dict_file = NoFile, threads = None\<rparr>"

definition duplicate_task :: task where
  "duplicate_task =
     \<lparr>task_id = ''t1'', logs = [],
      targets = [\<lparr>name = ''a.example'', status = Pending, found = 0\<rparr>],
      total_targets = 1, finished_targets = 0, paths = [''db.sql'', ''db.sql''],
      max_workers = 5, done_flag = False\<rparr>"

definition bracket_form :: form where
  "bracket_form =
     \<lparr>targets_text = ''['', targets_file = NoFile,
      dict_text = ''db.sql'', dict_file = NoFile, threads = None\<rparr>"

definition bracket_task :: task where
  "bracket_task =
     \<lparr>task_id = ''t1'', logs = [],
      targets = [\<lparr>name = ''['', status = Pending, found = 0\<rparr>],
      total_targets = 1, finished_targets = 0, paths = [''db.sql''],
      max_workers = 5, done_flag = False\<rparr>"

section \<open>Facts about the string primitives\<close>

lemma startswith_append [simp]: "startswith (p @ s) p"
  by (simp add: startswith_def)

lemma startswith_iff: "startswith s p \<longleftrightarrow> (\<exists>t. s = p @ t)"
proof
  assume "startswith s p"
  then have "s = p @ drop (length p) s"
    by (metis append_take_drop_id startswith_def)
  then show "\<exists>t. s = p @ t" ..
next
  assume "\<exists>t. s = p @ t"
  then show "startswith s p" by (auto simp: startswith_def)
qed

lemma startswith_extend: "startswith s p \<Longrightarrow> startswith (s @ t) p"
  by (auto simp: startswith_iff)

lemma endswith_append [simp]: "endswith (s @ p) p"
  by (simp add: endswith_def)

lemma endswith_slash_iff: "endswith s ''/'' \<longleftrightarrow> s \<noteq> [] \<and> last s = CHR ''/''"
proof (cases s rule: rev_cases)
  case Nil
  then show ?thesis by (simp add: endswith_def)
next
  case (snoc ys y)
  then show ?thesis by (auto simp: endswith_def)
qed

lemma strip_id:
  assumes "s \<noteq> []" and "\<not> is_space (hd s)" and "\<not> is_space (last s)"
  shows "strip s = s"
proof -
  from assms(1,2) have l: "dropWhile is_space s = s"
    by (cases s) auto
  from assms(1,3) have "dropWhile is_space (rev s) = rev s"
    by (cases s rule: rev_cases) auto
  with l show ?thesis
    by (simp add: strip_def rstrip_chars_def)
qed

lemma not_space_h [simp]: "\<not> is_space CHR ''h''"
  by (simp add: is_space_def)

lemma not_space_slash [simp]: "\<not> is_space CHR ''/''"
  by (simp add: is_space_def)

lemma startswith_hd:
  "startswith s (c # p) \<Longrightarrow> s \<noteq> [] \<and> hd s = c"
  by (cases s) (auto simp: startswith_def)

lemma normalize_base_url_shape:
  assumes "normalize_base_url raw \<noteq> []"
  shows "hd (normalize_base_url raw) = CHR ''h'' \<and> last (normalize_base_url raw) = CHR ''/''
         \<and> (startswith (normalize_base_url raw) ''http://''
              \<or> startswith (normalize_base_url raw) ''https://'')"
proof -
  define s where "s = strip raw"
  define u where "u = (if \<not> startswith s ''http://'' \<and> \<not> startswith s ''https://''
                       then ''http://'' @ s else s)"
  from assms have ne: "s \<noteq> []"
    by (auto simp: normalize_base_url_def s_def Let_def split: if_splits)
  have n: "normalize_base_url raw = (if \<not> endswith u ''/'' then u @ ''/'' else u)"
    using ne by (simp add: normalize_base_url_def s_def u_def Let_def)
  have sch: "startswith u ''http://'' \<or> startswith u ''https://''"
    unfolding u_def using startswith_append [of "''http://''" s] by auto
  then have hdu: "u \<noteq> [] \<and> hd u = CHR ''h''"
    using startswith_hd by fastforce
  have sch': "startswith (u @ ''/'') ''http://'' \<or> startswith (u @ ''/'') ''https://''"
    using sch startswith_extend by blast
  show ?thesis
    using n hdu sch sch' by (auto simp: endswith_slash_iff)
qed

lemma endswith_iff: "endswith s p \<longleftrightarrow> (\<exists>t. s = t @ p)"
proof
  assume "endswith s p"
  then have "s = take (length s - length p) s @ p"
    by (metis append_take_drop_id endswith_def)
  then show "\<exists>t. s = t @ p" ..
next
  assume "\<exists>t. s = t @ p"
  then show "endswith s p" by (auto simp: endswith_def)
qed

lemma endswith_two_slashes:
  "endswith s ''//'' \<longleftrightarrow> (\<exists>t. s = t @ ''/'' \<and> endswith t ''/'')"
proof
  assume "endswith s ''//''"
  then obtain t where "s = t @ ''//''" by (auto simp: endswith_iff)
  then have "s = (t @ ''/'') @ ''/'' \<and> endswith (t @ ''/'') ''/''" by simp
  then show "\<exists>t. s = t @ ''/'' \<and> endswith t ''/''" by blast
next
  assume "\<exists>t. s = t @ ''/'' \<and> endswith t ''/''"
  then obtain t u where "s = t @ ''/''" "t = u @ ''/''" by (auto simp: endswith_iff)
  then have "s = u @ ''//''" by simp
  then show "endswith s ''//''" unfolding endswith_iff by blast
qed

lemma normalize_base_url_no_scheme:
  assumes "strip raw \<noteq> []"
    and "\<not> startswith (strip raw) ''http://''" and "\<not> startswith (strip raw) ''https://''"
  shows "normalize_base_url raw =
           ''http://'' @ strip raw @ (if endswith (strip raw) ''/'' then [] else ''/'')"
  using assms by (auto simp: normalize_base_url_def Let_def endswith_slash_iff)

lemma strip_strip: "strip (strip s) = strip s"
proof (cases "strip s = []")
  case True
  have "strip [] = []" by (simp add: strip_def rstrip_chars_def)
  with True show ?thesis by simp
next
  case False
  define D where "D = dropWhile is_space s"
  define R where "R = dropWhile is_space (rev D)"
  have E: "strip s = rev R" by (simp add: strip_def rstrip_chars_def D_def R_def)
  with False have Rne: "R \<noteq> []" by simp
  then have Dne: "D \<noteq> []" by (auto simp: R_def)
  have hdD: "\<not> is_space (hd D)"
    using Dne unfolding D_def by (rule hd_dropWhile)
  have hdR: "\<not> is_space (hd R)"
    using Rne unfolding R_def by (rule hd_dropWhile)
  have "last R = hd D"
  proof -
    obtain d D' where D: "D = d # D'" using Dne by (cases D) auto
    have "R = dropWhile is_space (rev D' @ [d])" by (simp add: R_def D)
    also have "\<dots> = (if \<forall>x\<in>set (rev D'). is_space x then dropWhile is_space [d]
                      else dropWhile is_space (rev D') @ [d])"
      by (simp only: dropWhile_append)
    finally have "last R = d" using hdD D by (auto split: if_splits)
    then show ?thesis by (simp add: D)
  qed
  then have "\<not> is_space (hd (rev R))" using hdD Rne by (simp add: hd_rev)
  moreover have "\<not> is_space (last (rev R))" using hdR Rne by (simp add: last_rev)
  ultimately have "strip (rev R) = rev R"
    using Rne by (intro strip_id) simp_all
  then show ?thesis by (simp add: E)
qed

lemma py_int_strip: "py_int (strip s) = py_int s"
  by (simp add: py_int_def strip_strip)

lemma requested_workers_range: "1 \<le> requested_workers field \<and> requested_workers field \<le> 50"
  by (simp add: requested_workers_def Let_def split: option.splits sum.splits)

section \<open>Facts about the save path\<close>

lemma replace_char_absent: "a \<noteq> b \<Longrightarrow> a \<notin> set (replace_char a b s)"
  by (auto simp: replace_char_def)

lemma replace_char_keeps_absent: "c \<notin> set s \<Longrightarrow> c \<noteq> b \<Longrightarrow> c \<notin> set (replace_char a b s)"
  by (auto simp: replace_char_def)

lemma urlparse_netloc_no_slash:
  assumes "urlparse_netloc url = Inr netloc"
  shows "CHR ''/'' \<notin> set netloc"
proof -
  have "CHR ''/'' \<notin> set (takeWhile (\<lambda>c. c \<noteq> CHR ''/'' \<and> c \<noteq> CHR ''?'' \<and> c \<noteq> CHR ''#'') r)" for r
    by (auto dest: set_takeWhileD)
  with assms show ?thesis
    by (auto simp: urlparse_netloc_def Let_def split: if_splits)
qed

lemma host_tag_of_no_slash:
  assumes "host_tag_of base_url = Inr tag"
  shows "CHR ''/'' \<notin> set tag"
proof -
  from assms obtain netloc where n: "urlparse_netloc base_url = Inr netloc"
    and t: "tag = replace_char (CHR '':'') (CHR ''_'') netloc"
    by (auto simp: host_tag_of_def split: sum.splits)
  from n have "CHR ''/'' \<notin> set netloc" by (rule urlparse_netloc_no_slash)
  then show ?thesis unfolding t by (rule replace_char_keeps_absent) simp
qed

lemma safe_name_of_no_slash: "CHR ''/'' \<notin> set (safe_name_of url)"
  unfolding safe_name_of_def by (rule replace_char_absent) simp

lemma not_startswith_slash: "CHR ''/'' \<notin> set s \<Longrightarrow> \<not> startswith s ''/''"
  by (cases s) (auto simp: startswith_def)

lemma save_path_of_shape:
  assumes "CHR ''/'' \<notin> set tag"
  shows "save_path_of out tag url =
           dir_prefix out @ (if tag = [] then safe_name_of url else tag @ ''/'' @ safe_name_of url)"
proof -
  have n: "\<not> startswith (safe_name_of url) ''/''"
    using safe_name_of_no_slash by (rule not_startswith_slash)
  have t: "\<not> startswith tag ''/''"
    using assms by (rule not_startswith_slash)
  have j: "os_path_join out tag = dir_prefix out @ tag"
    using t by (simp add: os_path_join_def dir_prefix_def)
  show ?thesis
  proof (cases "tag = []")
    case True
    have "dir_prefix out = [] \<or> endswith (dir_prefix out) ''/''"
      by (auto simp: dir_prefix_def)
    with True n j show ?thesis
      by (auto simp: save_path_of_def os_path_join_def)
  next
    case False
    with assms have "last tag \<noteq> CHR ''/''" by (metis last_in_set)
    with False have "\<not> endswith (dir_prefix out @ tag) ''/''"
      by (simp add: endswith_slash_iff)
    with False n j show ?thesis
      by (simp add: save_path_of_def os_path_join_def)
  qed
qed

lemma tagged_name_inj:
  assumes "CHR ''/'' \<notin> set t1" "CHR ''/'' \<notin> set t2" "CHR ''/'' \<notin> set n1" "CHR ''/'' \<notin> set n2"
    and eq: "(if t1 = [] then n1 else t1 @ ''/'' @ n1) = (if t2 = [] then n2 else t2 @ ''/'' @ n2)"
  shows "t1 = t2 \<and> n1 = n2"
proof -
  let ?P = "\<lambda>c. c \<noteq> CHR ''/''"
  have tw: "takeWhile ?P (t @ ''/'' @ n) = t" if "CHR ''/'' \<notin> set t" for t n
    using that by (induction t) auto
  have twn: "takeWhile ?P n = n" if "CHR ''/'' \<notin> set n" for n
    using that by (induction n) auto
  consider "t1 = []" "t2 = []" | "t1 = []" "t2 \<noteq> []" | "t1 \<noteq> []" "t2 = []" | "t1 \<noteq> []" "t2 \<noteq> []"
    by blast
  then show ?thesis
  proof cases
    case 1
    with eq show ?thesis by simp
  next
    case 2
    with eq have "n1 = t2 @ ''/'' @ n2" by simp
    then have "CHR ''/'' \<in> set n1" by simp
    with assms(3) show ?thesis by simp
  next
    case 3
    with eq have "n2 = t1 @ ''/'' @ n1" by simp
    then have "CHR ''/'' \<in> set n2" by simp
    with assms(4) show ?thesis by simp
  next
    case 4
    with eq have e: "t1 @ ''/'' @ n1 = t2 @ ''/'' @ n2" by simp
    then have "takeWhile ?P (t1 @ ''/'' @ n1) = takeWhile ?P (t2 @ ''/'' @ n2)" by simp
    then have "t1 = t2" using tw [OF assms(1)] tw [OF assms(2)] by simp
    with e show ?thesis by simp
  qed
qed


section \<open>Facts about probers and the pool\<close>

lemma then_steps_simps [simp]:
  "fst (then_steps steps r) = steps @ fst r" "snd (then_steps steps r) = snd r"
  by (simp_all add: then_steps_def)

lemma increments_simps [simp]:
  "increments [] = 0"
  "increments (a # steps) = (if a = IncFinished then 1 else 0) + increments steps"
  "increments (xs @ ys) = increments xs + increments ys"
  by (simp_all add: increments_def)

lemma tested_urls_simps [simp]:
  "tested_urls [] = []"
  "tested_urls (a # steps) = tested_url a @ tested_urls steps"
  "tested_urls (xs @ ys) = tested_urls xs @ tested_urls ys"
  by (simp_all add: tested_urls_def)

lemma probe_paths_increments:
  "increments (fst (probe_paths w i b g out k fc ps))
     = (if snd (probe_paths w i b g out k fc ps) = Returned then 1 else 0)"
proof (induction ps arbitrary: k fc)
  case Nil
  show ?case by simp
next
  case (Cons p ps)
  show ?case
    by (simp add: Cons.IH Let_def
        split: sum.split fetch_result.split verdict.split)
qed

lemma probe_paths_tested:
  "snd (probe_paths w i b g out k fc ps) = Returned \<Longrightarrow>
   map Inr (tested_urls (fst (probe_paths w i b g out k fc ps))) = map (urljoin w b) ps"
proof (induction ps arbitrary: k fc)
  case Nil
  show ?case by simp
next
  case (Cons p ps)
  from Cons.prems show ?case
    by (simp add: Cons.IH Let_def
        split: sum.split_asm fetch_result.split_asm verdict.split_asm if_split_asm)
qed

lemma scan_single_target_steps_increments:
  "increments (fst (scan_single_target_steps w i target out ps t))
     = (if normalize_base_url target \<noteq> []
           \<and> snd (scan_single_target_steps w i target out ps t) = Returned
        then 1 else 0)"
  by (simp add: scan_single_target_steps_def Let_def probe_paths_increments split: sum.split)

lemma scan_single_target_steps_tested:
  assumes "normalize_base_url target \<noteq> []"
    and "snd (scan_single_target_steps w i target out ps t) = Returned"
  shows "map Inr (tested_urls (fst (scan_single_target_steps w i target out ps t)))
           = map (urljoin w (normalize_base_url target)) ps"
  using assms
  by (simp add: scan_single_target_steps_def Let_def probe_paths_tested
      split: if_split_asm sum.split_asm)

lemma exec_action_fields:
  "finished_targets (fst (exec_action a st))
     = finished_targets (fst st) + (if a = IncFinished then 1 else 0)"
  "total_targets (fst (exec_action a st)) = total_targets (fst st)"
  "done_flag (fst (exec_action a st)) = done_flag (fst st)"
  by (cases a; cases st; simp add: log_line_def Let_def)+

lemma run_steps_fields:
  "finished_targets (fst (run_steps steps st)) = finished_targets (fst st) + increments steps"
  "total_targets (fst (run_steps steps st)) = total_targets (fst st)"
  unfolding run_steps_def
  by (induction steps arbitrary: st) (simp_all add: exec_action_fields)

lemma pool_increments_update:
  assumes "i < length ths" and "ths ! i = (a # steps, loc)"
  shows "pool_increments (ths[i := (steps, loc')]) + (if a = IncFinished then 1 else 0)
           = pool_increments ths"
proof -
  define A where "A = take i ths"
  define B where "B = drop (Suc i) ths"
  have e1: "ths = A @ (a # steps, loc) # B"
    unfolding A_def B_def using assms by (metis id_take_nth_drop)
  have e2: "ths[i := (steps, loc')] = A @ (steps, loc') # B"
    unfolding A_def B_def using assms(1) by (simp add: upd_conv_take_nth_drop)
  have "pool_increments ths = pool_increments (A @ (a # steps, loc) # B)"
    using e1 by simp
  then show ?thesis
    unfolding e2 by (simp add: pool_increments_def)
qed

lemma run_pool_rest:
  "finished_targets (fold (\<lambda>th t. fst (run_steps (fst th) (t, snd th))) ths t)
     = finished_targets t + pool_increments ths
   \<and> total_targets (fold (\<lambda>th t. fst (run_steps (fst th) (t, snd th))) ths t)
     = total_targets t"
  by (induction ths arbitrary: t) (simp_all add: run_steps_fields pool_increments_def)

lemma run_pool_fields:
  "finished_targets (run_pool sched ths t) = finished_targets t + pool_increments ths
   \<and> total_targets (run_pool sched ths t) = total_targets t"
proof (induction sched arbitrary: ths t)
  case Nil
  show ?case using run_pool_rest by simp
next
  case (Cons i sched)
  show ?case
  proof (cases "i < length ths")
    case False
    then show ?thesis using Cons.IH by simp
  next
    case True
    obtain steps loc where th: "ths ! i = (steps, loc)" by (cases "ths ! i") auto
    show ?thesis
    proof (cases steps)
      case Nil
      with True th show ?thesis using Cons.IH by simp
    next
      case (Cons a rest)
      define r where "r = exec_action a (t, loc)"
      have step: "run_pool (i # sched) ths t = run_pool sched (ths[i := (rest, snd r)]) (fst r)"
        using True th Cons by (simp add: r_def Let_def)
      have f: "finished_targets (fst r) = finished_targets t + (if a = IncFinished then 1 else 0)"
        and tt: "total_targets (fst r) = total_targets t"
        by (simp_all add: r_def exec_action_fields)
      from pool_increments_update [OF True, of a rest loc "snd r"] th Cons
      have p: "pool_increments (ths[i := (rest, snd r)]) + (if a = IncFinished then 1 else 0)
                 = pool_increments ths" by simp
      show ?thesis
        unfolding step using Cons.IH [of "ths[i := (rest, snd r)]" "fst r"] f tt p by simp
    qed
  qed
qed

section \<open>Facts about the orchestrator and task creation\<close>

lemma increments_concat: "increments (concat xss) = sum_list (map increments xss)"
  by (induction xss) simp_all

lemma increments_exception_steps [simp]: "increments (exception_steps r) = 0"
  by (cases r) (simp_all add: exception_steps_def)

lemma sum_list_indicator:
  "sum_list (map (\<lambda>x. if P x then 1 else 0) xs) = length (filter P xs)"
  by (induction xs) simp_all

lemma scan_task_fields:
  "done_flag (scan_task w sched t)
   \<and> total_targets (scan_task w sched t) = total_targets t
   \<and> finished_targets (scan_task w sched t)
       = finished_targets t
         + length (filter (prober_completes w t) (enumerate0 (map name (targets t))))"
proof -
  define ps where "ps = enumerate0 (map name (targets t))"
  define runs where
    "runs = map (\<lambda>(idx, target). scan_single_target_steps w idx target (DOWNLOAD_DIR w) (paths t) t) ps"
  define waiter :: thread where "waiter = (concat (map (\<lambda>r. exception_steps (snd r)) runs), 0, 0)"
  have w0: "increments (fst waiter) = 0"
    by (simp add: waiter_def increments_concat o_def)
  have "pool_increments (map (\<lambda>r. (fst r, 0, 0)) runs)
          = sum_list (map (\<lambda>p. if prober_completes w t p then 1 else 0) ps)"
    unfolding pool_increments_def runs_def
    by (simp add: o_def case_prod_beta scan_single_target_steps_increments prober_completes_def)
  then have pi: "pool_increments (map (\<lambda>r. (fst r, 0, 0)) runs @ [waiter])
                   = length (filter (prober_completes w t) ps)"
    using w0 by (simp add: pool_increments_def sum_list_indicator)
  show ?thesis
    unfolding scan_task_def Let_def
    using run_pool_fields [of sched "map (\<lambda>r. (fst r, 0, 0)) runs @ [waiter]"] pi
    by (simp add: log_line_def ps_def runs_def waiter_def)
qed

lemma length_filter_eq_iff: "length (filter P xs) = length xs \<longleftrightarrow> (\<forall>x\<in>set xs. P x)"
proof (induction xs)
  case Nil
  show ?case by simp
next
  case (Cons x xs)
  have le: "length (filter P xs) \<le> length xs" by (rule length_filter_le)
  have "length (filter P xs) \<noteq> Suc (length xs)"
    using le by linarith
  with Cons show ?case by auto
qed

lemma start_scan_created:
  assumes "start_scan uuid f = Created t"
  shows "map name (targets t) = dict_fromkeys (collected_targets f)"
    and "total_targets t = length (targets t)"
    and "finished_targets t = 0"
    and "paths t = (if collected_paths f = [] then DEFAULT_PATHS else collected_paths f)"
    and "\<not> done_flag t"
  using assms
  by (auto simp: start_scan_def Let_def o_def split: if_split_asm)

lemma remdups_drop_mid: "x \<in> set B \<Longrightarrow> remdups (A @ x # B) = remdups (A @ B)"
  by (induction A) auto

lemma dict_fromkeys_fold:
  assumes "distinct acc"
  shows "fold (\<lambda>x keys. if x \<in> set keys then keys else keys @ [x]) xs acc
           = rev (remdups (rev (acc @ xs)))"
  using assms
proof (induction xs arbitrary: acc)
  case Nil
  then show ?case by (simp add: distinct_remdups_id)
next
  case (Cons x xs)
  show ?case
  proof (cases "x \<in> set acc")
    case True
    have "remdups (rev xs @ x # rev acc) = remdups (rev xs @ rev acc)"
      using True by (intro remdups_drop_mid) simp
    with True Cons show ?thesis by simp
  next
    case False
    with Cons.prems have "distinct (acc @ [x])" by simp
    from Cons.IH [OF this] False show ?thesis by simp
  qed
qed

lemma dict_fromkeys_first_occurrences: "dict_fromkeys xs = rev (remdups (rev xs))"
  unfolding dict_fromkeys_def using dict_fromkeys_fold [of "[]" xs] by simp

section \<open>Claims about the Path Normalizer\<close>

text \<open>
  C4 as stated fails: an input that ends in two slashes keeps both of them, since the
  normalizer appends a slash only when none is there and never removes one.
\<close>

theorem normalize_base_url_double_slash_counterexample:
  "''a//'' \<noteq> [] \<and> \<not> startswith ''a//'' ''http://'' \<and> \<not> startswith ''a//'' ''https://''
   \<and> normalize_base_url ''a//'' = ''http://a//''
   \<and> endswith (normalize_base_url ''a//'') ''//''"
  by (simp add: normalize_base_url_def strip_def rstrip_chars_def is_space_def
      startswith_def endswith_def)

text \<open>
  C4, amended. For every raw host string whose trimmed form is non-empty and carries no
  scheme prefix, the output starts with \<open>http://\<close> and ends with \<open>/\<close>; it ends with
  exactly one \<open>/\<close> unless the trimmed input is \<open>/\<close> itself or ends in two slashes.
\<close>

theorem normalize_base_url_no_scheme_shape:
  assumes "strip raw \<noteq> []"
    and "\<not> startswith (strip raw) ''http://''" and "\<not> startswith (strip raw) ''https://''"
  shows "startswith (normalize_base_url raw) ''http://''
         \<and> endswith (normalize_base_url raw) ''/''
         \<and> (endswith (normalize_base_url raw) ''//''
              \<longleftrightarrow> strip raw = ''/'' \<or> endswith (strip raw) ''//'')"
proof -
  define s where "s = strip raw"
  have n: "normalize_base_url raw = ''http://'' @ s @ (if endswith s ''/'' then [] else ''/'')"
    using assms unfolding s_def by (rule normalize_base_url_no_scheme)
  have ne: "s \<noteq> []" using assms(1) by (simp add: s_def)
  have a: "startswith (normalize_base_url raw) ''http://''"
    unfolding n by (rule startswith_append)
  have b: "endswith (normalize_base_url raw) ''/''"
    unfolding n using ne by (auto simp: endswith_slash_iff)
  have c: "endswith (normalize_base_url raw) ''//'' \<longleftrightarrow> s = ''/'' \<or> endswith s ''//''"
  proof (cases "endswith s ''/''")
    case False
    then have l: "last s \<noteq> CHR ''/''" using ne by (simp add: endswith_slash_iff)
    have "\<not> endswith (''http://'' @ s @ ''/'') ''//''"
    proof
      assume "endswith (''http://'' @ s @ ''/'') ''//''"
      then obtain t where t: "''http://'' @ s @ ''/'' = t @ ''/''" "endswith t ''/''"
        unfolding endswith_two_slashes by blast
      then have "t = ''http://'' @ s" by simp
      with t(2) l ne show False by (simp add: endswith_slash_iff)
    qed
    moreover have "\<not> endswith s ''//''"
      using False unfolding endswith_two_slashes by (auto simp: endswith_iff)
    moreover have "s \<noteq> ''/''" using False by (auto simp: endswith_def)
    ultimately show ?thesis using False by (simp add: n)
  next
    case True
    then obtain t where t: "s = t @ ''/''" by (auto simp: endswith_iff)
    have "endswith (''http://'' @ s) ''//'' \<longleftrightarrow> endswith (''http://'' @ t) ''/''"
      unfolding endswith_two_slashes t by auto
    also have "\<dots> \<longleftrightarrow> t = [] \<or> endswith t ''/''"
      by (auto simp: endswith_slash_iff)
    also have "\<dots> \<longleftrightarrow> s = ''/'' \<or> endswith s ''//''"
      unfolding endswith_two_slashes t by auto
    finally show ?thesis using True by (simp add: n)
  qed
  show ?thesis using a b c by (simp add: s_def)
qed

theorem normalize_base_url_no_scheme_shape_witness:
  "strip ''a.example'' \<noteq> []
   \<and> \<not> startswith (strip ''a.example'') ''http://''
   \<and> \<not> startswith (strip ''a.example'') ''https://''
   \<and> startswith (normalize_base_url ''a.example'') ''http://''
   \<and> endswith (normalize_base_url ''a.example'') ''/''
   \<and> \<not> endswith (normalize_base_url ''a.example'') ''//''"
proof -
  have s: "strip ''a.example'' = ''a.example''"
    by (simp add: strip_def rstrip_chars_def is_space_def)
  have h: "strip ''a.example'' \<noteq> []" "\<not> startswith (strip ''a.example'') ''http://''"
    "\<not> startswith (strip ''a.example'') ''https://''"
    unfolding s by (simp_all add: startswith_def)
  have "\<not> (strip ''a.example'' = ''/'' \<or> endswith (strip ''a.example'') ''//'')"
    unfolding s by (simp add: endswith_def)
  with normalize_base_url_no_scheme_shape [OF h] h show ?thesis by blast
qed


text \<open>
  C9. The Path Normalizer is idempotent: normalising an already normalised string
  returns it unchanged, for every input string.
\<close>

theorem normalize_base_url_idempotent:
  "normalize_base_url (normalize_base_url raw) = normalize_base_url raw"
proof (cases "normalize_base_url raw = []")
  case True
  then show ?thesis
    by (simp add: normalize_base_url_def strip_def rstrip_chars_def)
next
  case False
  define r where "r = normalize_base_url raw"
  from False normalize_base_url_shape [of raw]
  have ne: "r \<noteq> []" and h: "hd r = CHR ''h''" and l: "last r = CHR ''/''"
    and sch: "startswith r ''http://'' \<or> startswith r ''https://''"
    by (simp_all add: r_def)
  have st: "strip r = r"
    using ne h l by (intro strip_id) simp_all
  have e: "endswith r ''/''"
    using ne l by (simp add: endswith_slash_iff)
  have "normalize_base_url r = r"
    using st ne sch e by (auto simp: normalize_base_url_def Let_def)
  then show ?thesis by (simp add: r_def)
qed

text \<open>
  C10. Scheme detection is case-sensitive: the input \<open>HTTP://example.com\<close> is not
  recognised as carrying a scheme and is normalised to \<open>http://HTTP://example.com/\<close>.
\<close>

theorem normalize_base_url_uppercase_scheme:
  "normalize_base_url ''HTTP://example.com'' = ''http://HTTP://example.com/''"
  by (simp add: normalize_base_url_def strip_def rstrip_chars_def is_space_def
      startswith_def endswith_def)

section \<open>Claims about the Backup Classifier\<close>

text \<open>
  C6. For status 200, content type \<open>text/html; charset=utf-8\<close> and final URL
  \<open>http://x/backup.zip\<close>, the classifier gives no match when the declared length is
  1000 (below 2 MiB, the HTML guard applies) and a match when it is 3 * 1024 * 1024; the
  same holds when the length arrives as the text of the Content-Length header.
\<close>

theorem classify_html_guard_example:
  "classify 200 (lower ''text/html; charset=utf-8'') 1000 ''http://x/backup.zip'' = SkipHtml
   \<and> classify 200 (lower ''text/html; charset=utf-8'') (3 * 1024 * 1024) ''http://x/backup.zip''
        = Match
   \<and> classify_response \<lparr>status_code = 200,
          content_type_header = Some ''text/html; charset=utf-8'',
          content_length_header = Some ''1000'', resp_url = ''http://x/backup.zip'',
          save_raises = False\<rparr> = Inr SkipHtml
   \<and> classify_response \<lparr>status_code = 200,
          content_type_header = Some ''text/html; charset=utf-8'',
          content_length_header = Some ''3145728'', resp_url = ''http://x/backup.zip'',
          save_raises = False\<rparr> = Inr Match"
  by (simp add: classify_def classify_response_def content_length_of_def content_type_of_def
      py_int_def strip_def rstrip_chars_def is_space_def is_digit_def digit_val_def
      looks_like_backup_def BACKUP_SUFFIXES_def lower_def lower_char_def
      startswith_def endswith_def)

text \<open>
  C7. A response whose status is neither 200 nor 206 is never a match, whatever its
  content type, declared length and final URL are: the classifier answers \<open>Invalid\<close>,
  and reading the response first can only raise instead.
\<close>

theorem classify_other_status:
  assumes "code \<noteq> 200" and "code \<noteq> 206"
  shows "classify code content_type content_length url = Invalid
         \<and> classify code content_type content_length url \<noteq> Match
         \<and> (status_code r = code \<longrightarrow> classify_response r \<noteq> Inr Match)"
  using assms by (auto simp: classify_def classify_response_def split: sum.splits)

theorem classify_other_status_witness:
  "(404::int) \<noteq> 200 \<and> (404::int) \<noteq> 206
   \<and> classify 404 ''application/zip'' 5000000 ''http://x/backup.zip'' = Invalid
   \<and> classify_response \<lparr>status_code = 404, content_type_header = Some ''application/zip'',
          content_length_header = Some ''5000000'', resp_url = ''http://x/backup.zip'',
          save_raises = False\<rparr> \<noteq> Inr Match"
  using classify_other_status [of 404 "''application/zip''" 5000000 "''http://x/backup.zip''"
      "\<lparr>status_code = 404, content_type_header = Some ''application/zip'',
          content_length_header = Some ''5000000'', resp_url = ''http://x/backup.zip'',
          save_raises = False\<rparr>"]
  by simp

section \<open>Claims about task creation\<close>

text \<open>
  C3 as stated fails: a concurrency request of 0, or a negative one, is raised to 1 by
  the test \<open>max_workers <= 0\<close>; it does not fall back to the default of 5.
\<close>

theorem requested_workers_zero_counterexample:
  "requested_workers (Some ''0'') = 1 \<and> requested_workers (Some ''0'') \<noteq> 5
   \<and> requested_workers (Some ''-3'') = 1"
  by (simp add: requested_workers_def py_int_def strip_def rstrip_chars_def is_space_def
      is_digit_def digit_val_def)

text \<open>
  C3, amended. The effective worker count always lies in the range 1 to 50. A missing,
  empty or non-numeric request resolves to the default 5; a numeric request that is zero
  or negative resolves to 1, one above 50 to 50, and any other is kept.
\<close>

theorem requested_workers_resolved:
  "1 \<le> requested_workers field \<and> requested_workers field \<le> 50
   \<and> (field = None \<or> field = Some [] \<longrightarrow> requested_workers field = 5)
   \<and> (field = Some v \<and> v \<noteq> [] \<and> py_int v = Inl e \<longrightarrow> requested_workers field = 5)
   \<and> (field = Some v \<and> v \<noteq> [] \<and> py_int v = Inr n \<and> n \<le> 0 \<longrightarrow> requested_workers field = 1)
   \<and> (field = Some v \<and> v \<noteq> [] \<and> py_int v = Inr n \<and> 1 \<le> n \<and> n \<le> 50
        \<longrightarrow> requested_workers field = n)
   \<and> (field = Some v \<and> v \<noteq> [] \<and> py_int v = Inr n \<and> 50 < n \<longrightarrow> requested_workers field = 50)"
proof -
  have five: "py_int ''5'' = Inr 5"
    by (simp add: py_int_def strip_def rstrip_chars_def is_space_def is_digit_def digit_val_def)
  have a: "field = None \<or> field = Some [] \<longrightarrow> requested_workers field = 5"
    by (auto simp: requested_workers_def py_int_strip five)
  have b: "field = Some v \<and> v \<noteq> [] \<longrightarrow>
           requested_workers field =
             (case py_int v of Inl e \<Rightarrow> 5
              | Inr n \<Rightarrow> if n \<le> 0 then 1 else if 50 < n then 50 else n)"
    by (auto simp: requested_workers_def py_int_strip Let_def split: sum.splits)
  show ?thesis
    using requested_workers_range [of field] a b by auto
qed

theorem requested_workers_resolved_witness:
  "requested_workers (Some ''abc'') = 5 \<and> requested_workers (Some ''0'') = 1
   \<and> requested_workers (Some ''7'') = 7 \<and> requested_workers (Some ''100'') = 50
   \<and> requested_workers None = 5"
proof -
  have p: "py_int ''abc'' = Inl ValueError" "py_int ''0'' = Inr 0" "py_int ''7'' = Inr 7"
    "py_int ''100'' = Inr 100"
    by (simp_all add: py_int_def strip_def rstrip_chars_def is_space_def is_digit_def
        digit_val_def)
  from requested_workers_resolved [of "Some ''abc''" "''abc''" ValueError 0] p(1)
  have 1: "requested_workers (Some ''abc'') = 5" by simp
  from requested_workers_resolved [of "Some ''0''" "''0''" ValueError 0] p(2)
  have 2: "requested_workers (Some ''0'') = 1" by simp
  from requested_workers_resolved [of "Some ''7''" "''7''" ValueError 7] p(3)
  have 3: "requested_workers (Some ''7'') = 7" by simp
  from requested_workers_resolved [of "Some ''100''" "''100''" ValueError 100] p(4)
  have 4: "requested_workers (Some ''100'') = 50" by simp
  from requested_workers_resolved [of None "[]" ValueError 0]
  have 5: "requested_workers None = 5" by simp
  from 1 2 3 4 5 show ?thesis by simp
qed


section \<open>Claims about the save path\<close>

text \<open>
  C5 as stated fails: the targets \<open>a.com\<close> and \<open>a.com/\<close> are different strings, both
  survive the de-duplication, and both normalise to the base URL \<open>http://a.com/\<close>; for
  the same final URL their probers write to the same file.
\<close>

theorem save_path_shared_counterexample:
  "''a.com'' \<noteq> ''a.com/''
   \<and> dict_fromkeys [''a.com'', ''a.com/''] = [''a.com'', ''a.com/'']
   \<and> normalize_base_url ''a.com'' = normalize_base_url ''a.com/''
   \<and> save_path_for ''/out'' ''a.com'' ''http://a.com/backup.zip''
        = Inr ''/out/a.com/a.com_backup.zip''
   \<and> save_path_for ''/out'' ''a.com/'' ''http://a.com/backup.zip''
        = Inr ''/out/a.com/a.com_backup.zip''"
  by (simp add: save_path_for_def save_path_of_def host_tag_of_def urlparse_netloc_def
      normalize_base_url_def strip_def rstrip_chars_def is_space_def startswith_def endswith_def
      os_path_join_def safe_name_of_def split1_last_def replace_char_def dict_fromkeys_def)

text \<open>
  C5, amended. The file written for a match is determined by the output root, the host
  tag of the target's normalised base URL and the final URL of the response: two writes
  go to the same file exactly when their host tags are equal and their final URLs,
  scheme stripped and slashes replaced, are equal. Different target strings alone do
  not give different files.
\<close>

theorem save_path_for_eq_iff:
  assumes "save_path_for out t1 u1 = Inr p1" and "save_path_for out t2 u2 = Inr p2"
  shows "p1 = p2 \<longleftrightarrow>
           host_tag_of (normalize_base_url t1) = host_tag_of (normalize_base_url t2)
           \<and> safe_name_of u1 = safe_name_of u2"
proof -
  from assms(1) obtain g1 where g1: "host_tag_of (normalize_base_url t1) = Inr g1"
    and p1: "p1 = save_path_of out g1 u1"
    by (auto simp: save_path_for_def split: sum.splits)
  from assms(2) obtain g2 where g2: "host_tag_of (normalize_base_url t2) = Inr g2"
    and p2: "p2 = save_path_of out g2 u2"
    by (auto simp: save_path_for_def split: sum.splits)
  note s1 = host_tag_of_no_slash [OF g1] and s2 = host_tag_of_no_slash [OF g2]
  have "p1 = p2 \<longleftrightarrow> g1 = g2 \<and> safe_name_of u1 = safe_name_of u2"
    unfolding p1 p2 save_path_of_shape [OF s1] save_path_of_shape [OF s2]
    using tagged_name_inj [OF s1 s2 safe_name_of_no_slash safe_name_of_no_slash]
    by auto
  then show ?thesis by (simp add: g1 g2)
qed

theorem save_path_for_eq_iff_witness:
  "save_path_for ''/out'' ''a.com'' ''http://a.com/backup.zip''
     = Inr ''/out/a.com/a.com_backup.zip''
   \<and> save_path_for ''/out'' ''b.com:8080'' ''http://b.com:8080/backup.zip''
        = Inr ''/out/b.com_8080/b.com:8080_backup.zip''
   \<and> \<not> (host_tag_of (normalize_base_url ''a.com'')
            = host_tag_of (normalize_base_url ''b.com:8080'')
          \<and> safe_name_of ''http://a.com/backup.zip''
              = safe_name_of ''http://b.com:8080/backup.zip'')"
proof -
  have a: "save_path_for ''/out'' ''a.com'' ''http://a.com/backup.zip''
             = Inr ''/out/a.com/a.com_backup.zip''"
    by (simp add: save_path_for_def save_path_of_def host_tag_of_def urlparse_netloc_def
      normalize_base_url_def strip_def rstrip_chars_def is_space_def startswith_def endswith_def
      os_path_join_def safe_name_of_def split1_last_def replace_char_def dict_fromkeys_def)
  have b: "save_path_for ''/out'' ''b.com:8080'' ''http://b.com:8080/backup.zip''
             = Inr ''/out/b.com_8080/b.com:8080_backup.zip''"
    by (simp add: save_path_for_def save_path_of_def host_tag_of_def urlparse_netloc_def
      normalize_base_url_def strip_def rstrip_chars_def is_space_def startswith_def endswith_def
      os_path_join_def safe_name_of_def split1_last_def replace_char_def dict_fromkeys_def)
  from save_path_for_eq_iff [OF a b] a b show ?thesis by simp
qed




section \<open>Claims about the scan\<close>

text \<open>
  C1 as stated fails: a target whose base URL has an opening bracket without a closing
  one makes \<open>urlparse\<close> raise in its prober, which then never reaches the increment;
  the orchestrator logs the exception and its \<open>finally\<close> block still marks the task done.
\<close>

theorem scan_worker_done_unfinished_counterexample:
  "start_scan ''t1'' bracket_form = Created bracket_task
   \<and> map_option done_flag
         (scan_worker file_world [] [''t1'' \<mapsto> bracket_task] ''t1'' ''t1'') = Some True
   \<and> map_option finished_targets
         (scan_worker file_world [] [''t1'' \<mapsto> bracket_task] ''t1'' ''t1'') = Some 0
   \<and> map_option total_targets
         (scan_worker file_world [] [''t1'' \<mapsto> bracket_task] ''t1'' ''t1'') = Some 1"
  by code_simp

text \<open>
  C1, amended. For a task made by \<open>start_scan\<close> and every schedule of the pool, when
  \<open>scan_worker\<close> ends the task is marked done, and \<open>finished_targets\<close> is the number of
  probers that ran to their end; it never exceeds \<open>total_targets\<close> and equals it exactly
  when no prober raised.
\<close>

theorem scan_worker_done_counts:
  assumes "start_scan uuid f = Created t" and "TASKS tid = Some t"
  shows "\<exists>t'. scan_worker w sched TASKS tid tid = Some t'
           \<and> done_flag t'
           \<and> total_targets t' = total_targets t
           \<and> finished_targets t'
               = length (filter (prober_completes w t) (enumerate0 (map name (targets t))))
           \<and> finished_targets t' \<le> total_targets t'
           \<and> (finished_targets t' = total_targets t'
                \<longleftrightarrow> (\<forall>p \<in> set (enumerate0 (map name (targets t))). prober_completes w t p))"
proof -
  let ?ps = "enumerate0 (map name (targets t))"
  let ?t' = "scan_task w sched t"
  have len: "length ?ps = total_targets t"
    using start_scan_created(2) [OF assms(1)] by (simp add: enumerate0_def)
  have r: "scan_worker w sched TASKS tid tid = Some ?t'"
    using assms(2) by (simp add: scan_worker_def)
  have f: "finished_targets ?t' = length (filter (prober_completes w t) ?ps)"
    using scan_task_fields [of w sched t] start_scan_created(3) [OF assms(1)] by simp
  have tt: "total_targets ?t' = total_targets t" and d: "done_flag ?t'"
    using scan_task_fields [of w sched t] by simp_all
  have le: "finished_targets ?t' \<le> total_targets ?t'"
    unfolding f tt len [symmetric] by (rule length_filter_le)
  have eq: "finished_targets ?t' = total_targets ?t' \<longleftrightarrow> (\<forall>p \<in> set ?ps. prober_completes w t p)"
    unfolding f tt len [symmetric] by (rule length_filter_eq_iff)
  from r d tt f le eq show ?thesis by blast
qed

theorem scan_worker_done_counts_witness:
  "start_scan ''t1'' duplicate_form = Created duplicate_task
   \<and> [''t1'' \<mapsto> duplicate_task] ''t1'' = Some duplicate_task
   \<and> map_option done_flag
         (scan_worker file_world [0, 1, 0] [''t1'' \<mapsto> duplicate_task] ''t1'' ''t1'') = Some True
   \<and> map_option finished_targets
         (scan_worker file_world [0, 1, 0] [''t1'' \<mapsto> duplicate_task] ''t1'' ''t1'') = Some 1
   \<and> map_option total_targets
         (scan_worker file_world [0, 1, 0] [''t1'' \<mapsto> duplicate_task] ''t1'' ''t1'') = Some 1"
proof -
  have c: "start_scan ''t1'' duplicate_form = Created duplicate_task"
    by code_simp
  have l: "[''t1'' \<mapsto> duplicate_task] ''t1'' = Some duplicate_task"
    by simp
  have a: "\<forall>p \<in> set (enumerate0 (map name (targets duplicate_task))).
             prober_completes file_world duplicate_task p"
    by code_simp
  have n: "total_targets duplicate_task = 1"
    by (simp add: duplicate_task_def)
  from scan_worker_done_counts
    [where TASKS = "[''t1'' \<mapsto> duplicate_task]" and tid = "''t1''" and w = file_world
      and sched = "[0, 1, 0]", OF c l] a n
  obtain t' where
    "scan_worker file_world [0, 1, 0] [''t1'' \<mapsto> duplicate_task] ''t1'' ''t1'' = Some t'"
    "done_flag t'" "total_targets t' = 1" "finished_targets t' = total_targets t'"
    by auto
  with c l show ?thesis by simp
qed

text \<open>
  C2 at the failing input. A response without a Content-Length header is read as length
  zero and an HTML response is then skipped by the guard. A Content-Length that is not a
  number makes \<open>int\<close> raise \<open>ValueError\<close> instead: the prober stops at the first path, the
  second path is never requested, the target stays in state scanning and
  \<open>finished_targets\<close> is not incremented.
\<close>

theorem content_length_not_a_number_raises:
  "classify_response \<lparr>status_code = 200, content_type_header = Some ''text/html'',
      content_length_header = None, resp_url = ''http://a.example/backup.zip'',
      save_raises = False\<rparr> = Inr SkipHtml
   \<and> classify_response \<lparr>status_code = 200, content_type_header = Some ''text/html'',
      content_length_header = Some ''abc'', resp_url = ''http://a.example/backup.zip'',
      save_raises = False\<rparr> = Inl ValueError
   \<and> scan_single_target_steps badlen_world 0 ''a.example'' ''/srv/downloads''
        [''backup.zip'', ''db.sql''] duplicate_task
       = ([SetStatus 0 Scanning, Log (LogScanStart ''http://a.example/''),
           Log (LogTesting ''http://a.example/backup.zip'')], Raised ValueError)
   \<and> snd (scan_single_target badlen_world 0 ''a.example'' ''/srv/downloads''
        [''backup.zip'', ''db.sql''] duplicate_task) = Raised ValueError
   \<and> finished_targets (fst (scan_single_target badlen_world 0 ''a.example'' ''/srv/downloads''
        [''backup.zip'', ''db.sql''] duplicate_task)) = 0
   \<and> map status (targets (fst (scan_single_target badlen_world 0 ''a.example''
        ''/srv/downloads'' [''backup.zip'', ''db.sql''] duplicate_task))) = [Scanning]"
  by code_simp

text \<open>
  C8. The target names of a created task are the submitted target lines without
  repetitions, each at the place of its first occurrence. The submitted dictionary lines
  are kept as they are, repetitions included, and a prober that runs to its end sends one
  request for every entry of that list, in order.
\<close>

theorem start_scan_targets_unique_paths_kept:
  assumes "start_scan uuid f = Created t"
  shows "map name (targets t) = rev (remdups (rev (collected_targets f)))
         \<and> distinct (map name (targets t))
         \<and> set (map name (targets t)) = set (collected_targets f)
         \<and> (collected_paths f \<noteq> [] \<longrightarrow> paths t = collected_paths f)
         \<and> (normalize_base_url target \<noteq> []
              \<and> snd (scan_single_target_steps w i target out (paths t) t) = Returned
             \<longrightarrow> map Inr (tested_urls (fst (scan_single_target_steps w i target out (paths t) t)))
                   = map (urljoin w (normalize_base_url target)) (paths t))"
proof -
  have n: "map name (targets t) = rev (remdups (rev (collected_targets f)))"
    using start_scan_created(1) [OF assms] by (simp add: dict_fromkeys_first_occurrences)
  have p: "collected_paths f \<noteq> [] \<longrightarrow> paths t = collected_paths f"
    using start_scan_created(4) [OF assms] by simp
  show ?thesis
    using p scan_single_target_steps_tested [of target w i out "paths t" t]
    unfolding n by simp
qed

theorem start_scan_targets_unique_paths_kept_witness:
  "start_scan ''t1'' duplicate_form = Created duplicate_task
   \<and> collected_targets duplicate_form = [''a.example'', ''a.example'']
   \<and> map name (targets duplicate_task) = [''a.example'']
   \<and> collected_paths duplicate_form = [''db.sql'', ''db.sql'']
   \<and> paths duplicate_task = [''db.sql'', ''db.sql'']
   \<and> tested_urls (fst (scan_single_target_steps file_world 0 ''a.example'' ''/srv/downloads''
        (paths duplicate_task) duplicate_task))
       = [''http://a.example/db.sql'', ''http://a.example/db.sql'']"
proof -
  have c: "start_scan ''t1'' duplicate_form = Created duplicate_task"
    by code_simp
  have ct: "collected_targets duplicate_form = [''a.example'', ''a.example'']"
    and cp: "collected_paths duplicate_form = [''db.sql'', ''db.sql'']"
    by code_simp+
  have b: "normalize_base_url ''a.example'' = ''http://a.example/''"
    by code_simp
  have pd: "paths duplicate_task = [''db.sql'', ''db.sql'']"
    by (simp add: duplicate_task_def)
  have r: "snd (scan_single_target_steps file_world 0 ''a.example'' ''/srv/downloads''
             [''db.sql'', ''db.sql''] duplicate_task) = Returned"
    by code_simp
  have u: "urljoin file_world = plain_join"
    by (simp add: file_world_def)
  note k = start_scan_targets_unique_paths_kept
    [OF c, of "''a.example''" file_world 0 "''/srv/downloads''", unfolded pd b ct cp]
  from k have nm: "map name (targets duplicate_task) = [''a.example'']"
    by simp
  from k r have "map Inr (tested_urls (fst (scan_single_target_steps file_world 0 ''a.example''
           ''/srv/downloads'' [''db.sql'', ''db.sql''] duplicate_task)))
         = map (urljoin file_world ''http://a.example/'') [''db.sql'', ''db.sql'']"
    by simp
  then have "tested_urls (fst (scan_single_target_steps file_world 0 ''a.example''
           ''/srv/downloads'' [''db.sql'', ''db.sql''] duplicate_task))
         = [''http://a.example/db.sql'', ''http://a.example/db.sql'']"
    by (simp add: u plain_join_def map_eq_Cons_conv)
  with c ct cp nm pd show ?thesis by simp
qed

end
